theory Spec2Isabelle
  imports Main
begin

section \<open>ESP32 MAC address collector: a shallow embedding of esp32_mac_collector.py\<close>

text \<open>
  Python \<open>str\<close> values are modelled as \<^typ>\<open>string\<close>: a \<^typ>\<open>char\<close> stands for the code
  point of the same number, so the model covers text whose code points are below 256.
  Python \<open>int\<close> is \<^typ>\<open>int\<close>. An uncaught exception is the \<open>Inl\<close> branch of a sum.
\<close>

datatype error = ValueError | AttributeError | TypeError | JSONDecodeError

subsection \<open>Characters\<close>

definition code :: "char \<Rightarrow> int" where
  "code c = of_char c"

definition in_range :: "char \<Rightarrow> char \<Rightarrow> char \<Rightarrow> bool" where
  \<comment> \<open>the range \<open>lo-hi\<close> of a character class\<close>
  "in_range lo hi c = (code lo \<le> code c \<and> code c \<le> code hi)"

definition is_hex :: "char \<Rightarrow> bool" where
  \<comment> \<open>the class \<open>[0-9A-Fa-f]\<close>\<close>
  "is_hex c = (in_range CHR ''0'' CHR ''9'' c \<or> in_range CHR ''A'' CHR ''F'' c
               \<or> in_range CHR ''a'' CHR ''f'' c)"

definition is_upper_hex :: "char \<Rightarrow> bool" where
  "is_upper_hex c = (in_range CHR ''0'' CHR ''9'' c \<or> in_range CHR ''A'' CHR ''F'' c)"

definition is_space :: "char \<Rightarrow> bool" where
  \<comment> \<open>\<open>str.isspace\<close> on one character, which is also \<open>\s\<close> of \<open>re\<close> and what
      \<open>str.strip()\<close> removes: TAB..CR, FS..US, space, NEL, NBSP\<close>
  "is_space c = ((9 \<le> code c \<and> code c \<le> 13) \<or> (28 \<le> code c \<and> code c \<le> 32)
                 \<or> code c = 133 \<or> code c = 160)"

definition int_space :: "char \<Rightarrow> bool" where
  \<comment> \<open>the white space \<open>int()\<close> skips around a literal: the C locale's \<open>isspace\<close> on
      ASCII, and the non-ASCII spaces, which \<open>int()\<close> first turns into blanks\<close>
  "int_space c = ((9 \<le> code c \<and> code c \<le> 13) \<or> code c = 32
                  \<or> code c = 133 \<or> code c = 160)"

definition digit_value :: "char \<Rightarrow> int" where
  \<comment> \<open>the value of a digit in \<open>int(s, base)\<close>; 37 for a character that is no digit\<close>
  "digit_value c =
     (if in_range CHR ''0'' CHR ''9'' c then code c - 48
      else if in_range CHR ''a'' CHR ''z'' c then code c - 87
      else if in_range CHR ''A'' CHR ''Z'' c then code c - 55
      else 37)"

definition upper_char :: "char \<Rightarrow> char" where
  \<comment> \<open>\<open>str.upper\<close> on one character: exact on ASCII and on characters without case,
      and the text a pattern matches has no others\<close>
  "upper_char c = (if in_range CHR ''a'' CHR ''z'' c then char_of (code c - 32) else c)"

definition hex_digit :: "int \<Rightarrow> char" where
  \<comment> \<open>the digit of \<open>format(n, 'X')\<close> for a value below 16\<close>
  "hex_digit d = (if d < 10 then char_of (48 + d) else char_of (55 + d))"

subsection \<open>String methods\<close>

definition upper :: "string \<Rightarrow> string" where
  "upper s = map upper_char s"

definition strip :: "string \<Rightarrow> string" where
  \<comment> \<open>\<open>s.strip()\<close>\<close>
  "strip s = rev (dropWhile is_space (rev (dropWhile is_space s)))"

fun replace_from :: "nat \<Rightarrow> string \<Rightarrow> string \<Rightarrow> string \<Rightarrow> string" where
  \<comment> \<open>the scan of \<open>s.replace(old, new)\<close> for a non-empty \<open>old\<close>, left to right, the
      occurrences not overlapping; the first argument counts the characters of an
      occurrence still to be skipped\<close>
  "replace_from k old new [] = []"
| "replace_from (Suc k) old new (c # cs) = replace_from k old new cs"
| "replace_from 0 old new (c # cs) =
     (if take (length old) (c # cs) = old
      then new @ replace_from (length old - 1) old new cs
      else c # replace_from 0 old new cs)"

definition replace :: "string \<Rightarrow> string \<Rightarrow> string \<Rightarrow> string" where
  \<comment> \<open>\<open>s.replace(old, new)\<close>; an empty \<open>old\<close> matches before every character and at
      the end\<close>
  "replace s old new =
     (if old = [] then new @ concat (map (\<lambda>c. c # new) s)
      else replace_from 0 old new s)"

fun join :: "string \<Rightarrow> string list \<Rightarrow> string" where
  \<comment> \<open>\<open>sep.join(xs)\<close>\<close>
  "join sep [] = []"
| "join sep [x] = x"
| "join sep (x # y # ys) = x @ sep @ join sep (y # ys)"

definition slice :: "string \<Rightarrow> nat \<Rightarrow> nat \<Rightarrow> string" where
  \<comment> \<open>\<open>s[i:j]\<close> for indices that are not negative\<close>
  "slice s i j = take (j - i) (drop i s)"

subsection \<open>int(s, 16) and format(n, '012X')\<close>

fun no_double_underscore :: "string \<Rightarrow> bool" where
  "no_double_underscore (a # b # r) =
     (\<not> (a = CHR ''_'' \<and> b = CHR ''_'') \<and> no_double_underscore (b # r))"
| "no_double_underscore r = True"

definition int16 :: "string \<Rightarrow> error + int" where
  \<comment> \<open>\<open>int(s, 16)\<close>: white space around, a sign, a prefix \<open>0x\<close> or \<open>0X\<close> and one
      underscore after it, then hex digits with single underscores between them\<close>
  "int16 s =
     (let t = dropWhile int_space s;
          neg = (t \<noteq> [] \<and> hd t = CHR ''-'');
          t = (if t \<noteq> [] \<and> (hd t = CHR ''+'' \<or> hd t = CHR ''-'') then tl t else t);
          pre = (length t \<ge> 2 \<and> t ! 0 = CHR ''0'' \<and> (t ! 1 = CHR ''x'' \<or> t ! 1 = CHR ''X''));
          t = (if pre then drop 2 t else t);
          t = (if pre \<and> t \<noteq> [] \<and> hd t = CHR ''_'' then tl t else t);
          body = takeWhile (\<lambda>c. digit_value c < 16 \<or> c = CHR ''_'') t;
          rest = dropWhile int_space (drop (length body) t);
          digits = filter (\<lambda>c. c \<noteq> CHR ''_'') body;
          v = foldl (\<lambda>a c. 16 * a + digit_value c) 0 digits
      in if body = [] \<or> hd body = CHR ''_'' \<or> last body = CHR ''_''
            \<or> \<not> no_double_underscore body \<or> rest \<noteq> []
         then Inl ValueError
         else Inr (if neg then - v else v))"

function hex_upper :: "int \<Rightarrow> string" where
  \<comment> \<open>\<open>format(n, 'X')\<close> for \<open>n \<ge> 0\<close>\<close>
  "hex_upper n = (if n < 16 then [hex_digit n] else hex_upper (n div 16) @ [hex_digit (n mod 16)])"
  by pat_completeness auto
termination
  by (relation "measure nat") auto

declare hex_upper.simps [simp del]

definition format_012X :: "int \<Rightarrow> string" where
  \<comment> \<open>\<open>format(n, '012X')\<close>: zero padding to the width 12 between the sign and the
      digits; a longer number is not cut\<close>
  "format_012X n =
     (if n < 0
      then CHR ''-'' # replicate (11 - length (hex_upper (- n))) CHR ''0'' @ hex_upper (- n)
      else replicate (12 - length (hex_upper n)) CHR ''0'' @ hex_upper n)"

subsection \<open>ESP32Manager.increment\_mac\<close>

definition increment_mac :: "string \<Rightarrow> int \<Rightarrow> error + string" where
  "increment_mac mac_str increment =
     (case int16 (replace mac_str '':'' []) of
        Inl e \<Rightarrow> Inl e
      | Inr mac_int \<Rightarrow>
          (let new_mac_int = mac_int + increment;
               mac_hex = format_012X new_mac_int;
               new_mac = join '':'' (map (\<lambda>i. slice mac_hex i (i + 2)) [0, 2, 4, 6, 8, 10])
           in Inr new_mac))"

subsection \<open>Regular expressions of re\<close>

text \<open>
  The two patterns of \<open>parse_mac_from_boot_message\<close> use character classes,
  concatenation, \<open>+\<close> and \<open>{n}\<close>. \<open>match_at r s\<close> lists, for every way \<open>r\<close> matches a
  prefix of \<open>s\<close>, the text left after it, in the order in which the backtracking matcher
  of \<open>re\<close> tries them (\<open>+\<close> is greedy: the longer repetition first). The capturing groups
  do not change \<open>group(0)\<close> and are left out.
\<close>

datatype regex = Eps | Set "char \<Rightarrow> bool" | Cat regex regex | Plus regex

fun match_at :: "regex \<Rightarrow> string \<Rightarrow> string list" where
  "match_at Eps s = [s]"
| "match_at (Set p) s = (case s of [] \<Rightarrow> [] | c # cs \<Rightarrow> if p c then [cs] else [])"
| "match_at (Cat a b) s = concat (map (match_at b) (match_at a s))"
| "match_at (Plus a) s =
     concat (map (\<lambda>r. (if length r < length s then match_at (Plus a) r else []) @ [r])
                 (match_at a s))"

declare match_at.simps(4) [simp del]

fun repeat :: "nat \<Rightarrow> regex \<Rightarrow> regex" where
  \<comment> \<open>\<open>r{n}\<close>\<close>
  "repeat 0 r = Eps"
| "repeat (Suc n) r = Cat r (repeat n r)"

fun search :: "regex \<Rightarrow> string \<Rightarrow> string option" where
  \<comment> \<open>\<open>re.search(r, s)\<close>: the leftmost start at which \<open>r\<close> matches, and there the first
      match the matcher finds; the result is \<open>group(0)\<close>\<close>
  "search r [] = (case match_at r [] of [] \<Rightarrow> None | rest # _ \<Rightarrow> Some [])"
| "search r (c # cs) =
     (case match_at r (c # cs) of
        [] \<Rightarrow> search r cs
      | rest # _ \<Rightarrow> Some (take (length (c # cs) - length rest) (c # cs)))"

definition one_of :: "string \<Rightarrow> char \<Rightarrow> bool" where
  \<comment> \<open>a class that lists its characters, as \<open>[Mm]\<close>\<close>
  "one_of cs c = (c \<in> set cs)"

definition bare_pattern :: regex where
  \<comment> \<open>\<open>([0-9A-Fa-f]{2}[:-]){5}([0-9A-Fa-f]{2})\<close>\<close>
  "bare_pattern =
     Cat (repeat 5 (Cat (repeat 2 (Set is_hex)) (Set (one_of '':-''))))
         (repeat 2 (Set is_hex))"

definition labelled_pattern :: regex where
  \<comment> \<open>\<open>[Mm][Aa][Cc][:\s]+([0-9A-Fa-f]{2}[:-]){5}([0-9A-Fa-f]{2})\<close>\<close>
  "labelled_pattern =
     Cat (Set (one_of ''Mm'')) (Cat (Set (one_of ''Aa'')) (Cat (Set (one_of ''Cc''))
       (Cat (Plus (Set (\<lambda>c. c = CHR '':'' \<or> is_space c))) bare_pattern)))"

definition mac_patterns :: "regex list" where
  "mac_patterns = [labelled_pattern, bare_pattern]"

subsection \<open>ESP32Manager.parse\_mac\_from\_boot\_message\<close>

definition normalize_mac :: "string \<Rightarrow> string" where
  \<comment> \<open>the two assignments to \<open>mac\<close> under the comment "Normalize MAC address format"\<close>
  "normalize_mac mac =
     (let mac = strip (replace (replace (replace mac ''MAC:'' []) ''Mac:'' []) ''mac:'' []);
          mac = upper (replace mac ''-'' '':'')
      in mac)"

fun first_pattern :: "regex list \<Rightarrow> string \<Rightarrow> string option" where
  \<comment> \<open>the loop over \<open>mac_patterns\<close>; \<open>None\<close> is Python's \<open>None\<close>\<close>
  "first_pattern [] line = None"
| "first_pattern (pattern # rest) line =
     (case search pattern line of
        Some mac \<Rightarrow> Some (normalize_mac mac)
      | None \<Rightarrow> first_pattern rest line)"

definition parse_mac_from_boot_message :: "string \<Rightarrow> string option" where
  "parse_mac_from_boot_message line = first_pattern mac_patterns line"

subsection \<open>JSON values and the database file\<close>

text \<open>
  The values \<open>json.load\<close> returns and \<open>json.dump\<close> writes: \<open>None\<close>, \<open>bool\<close>, \<open>int\<close>, \<open>str\<close>,
  \<open>list\<close> and \<open>dict\<close> (its items in insertion order). Numbers with a fraction are left out
  of the model. The attributes \<open>mac_database\<close> and \<open>device_counter\<close> hold whatever value
  the file gave them, so both have the type \<open>json\<close>.

  The file \<open>esp32_mac_database.json\<close> is absent (\<open>None\<close>) or has a content: text that
  \<open>json.load\<close> rejects, or the text of a JSON value. \<open>json.dump\<close> followed by \<open>json.load\<close>
  gives the value back; writing the file does not fail in the model.
\<close>

datatype json = JNull | JBool bool | JInt int | JStr string | JArr "json list"
  | JObj "(string \<times> json) list"

datatype content = Malformed | Document json

definition dict_get :: "(string \<times> json) list \<Rightarrow> string \<Rightarrow> json \<Rightarrow> json" where
  \<comment> \<open>\<open>d.get(key, default)\<close>\<close>
  "dict_get d k dflt = (case map_of d k of None \<Rightarrow> dflt | Some v \<Rightarrow> v)"

definition py_len :: "json \<Rightarrow> error + nat" where
  \<comment> \<open>\<open>len(v)\<close>\<close>
  "py_len v =
     (case v of JStr s \<Rightarrow> Inr (length s) | JArr xs \<Rightarrow> Inr (length xs)
      | JObj d \<Rightarrow> Inr (length d) | _ \<Rightarrow> Inl TypeError)"

definition py_append :: "json \<Rightarrow> json \<Rightarrow> error + json" where
  \<comment> \<open>\<open>v.append(x)\<close>: only a list has the method\<close>
  "py_append v x = (case v of JArr xs \<Rightarrow> Inr (JArr (xs @ [x])) | _ \<Rightarrow> Inl AttributeError)"

definition add_one :: "json \<Rightarrow> error + json" where
  \<comment> \<open>\<open>v += 1\<close>\<close>
  "add_one v =
     (case v of JInt n \<Rightarrow> Inr (JInt (n + 1))
      | JBool b \<Rightarrow> Inr (JInt ((if b then 1 else 0) + 1))
      | _ \<Rightarrow> Inl TypeError)"

subsection \<open>ESP32Manager: the constructor, load\_database, save\_database\<close>

record manager =
  baudrate :: int
  timeout :: int
  mac_database :: json
  device_counter :: json
  db_file :: string

definition load_database :: "manager \<Rightarrow> content option \<Rightarrow> error + manager" where
  \<comment> \<open>the second argument is the file \<open>db_file\<close> names; the \<open>print\<close> after the \<open>with\<close>
      block evaluates \<open>len(self.mac_database)\<close>\<close>
  "load_database self file =
     (case file of
        None \<Rightarrow> Inr self
      | Some Malformed \<Rightarrow> Inl JSONDecodeError
      | Some (Document data) \<Rightarrow>
          (case data of
             JObj d \<Rightarrow>
               (let self = self\<lparr>mac_database := dict_get d ''devices'' (JArr [])\<rparr>;
                    self = self\<lparr>device_counter := dict_get d ''next_id'' (JInt 1)\<rparr>
                in case py_len (mac_database self) of
                     Inl e \<Rightarrow> Inl e
                   | Inr n \<Rightarrow> Inr self)
           | _ \<Rightarrow> Inl AttributeError))"

definition ESP32Manager :: "int \<Rightarrow> int \<Rightarrow> content option \<Rightarrow> error + manager" where
  \<comment> \<open>\<open>__init__(self, baudrate, timeout)\<close>\<close>
  "ESP32Manager baud tmo file =
     load_database \<lparr>baudrate = baud, timeout = tmo, mac_database = JArr [],
                     device_counter = JInt 1, db_file = ''esp32_mac_database.json''\<rparr> file"

definition save_database :: "manager \<Rightarrow> string \<Rightarrow> content" where
  \<comment> \<open>the content written to the file; the second argument is
      \<open>datetime.now().isoformat()\<close>\<close>
  "save_database self now =
     Document (JObj [(''devices'', mac_database self),
                     (''next_id'', device_counter self),
                     (''last_updated'', JStr now)])"

definition without_last_updated :: "content \<Rightarrow> content" where
  \<comment> \<open>a content without its field \<open>last_updated\<close>, to compare two saved files\<close>
  "without_last_updated c =
     (case c of Document (JObj d) \<Rightarrow> Document (JObj (filter (\<lambda>kv. fst kv \<noteq> ''last_updated'') d))
      | _ \<Rightarrow> c)"

subsection \<open>ESP32Manager.collect\_mac\_from\_reset\<close>

text \<open>
  The serial port and the clock are inputs. A session says whether \<open>serial.Serial\<close>
  opens the port, what each pass of the \<open>while\<close> loop meets before the deadline
  \<open>self.timeout\<close> (the list ends where the deadline passes), and the two time stamps
  \<open>datetime.now().isoformat()\<close> would give. Console output is not modelled.
\<close>

datatype poll =
    Quiet             \<comment> \<open>\<open>ser.in_waiting\<close> is 0\<close>
  | Received string   \<comment> \<open>\<open>ser.readline()\<close>, decoded with \<open>errors='ignore'\<close>\<close>
  | Broken            \<comment> \<open>\<open>ser.in_waiting\<close> or \<open>ser.readline()\<close> raises \<open>SerialException\<close>\<close>

record session =
  opens :: bool
  polls :: "poll list"
  captured_at :: string
  saved_at :: string

definition record_device ::
  "session \<Rightarrow> string \<Rightarrow> string \<Rightarrow> manager \<Rightarrow> error + (json \<times> manager \<times> content)" where
  \<comment> \<open>the body of \<open>if mac and not wifi_mac\<close>: the record, the append, the counter and the
      save; the result is the record, the manager and the content of the file\<close>
  "record_device s port wifi_mac self =
     (case increment_mac wifi_mac 2 of
        Inl e \<Rightarrow> Inl e
      | Inr bt_mac \<Rightarrow>
          (let device_info = JObj [(''id'', device_counter self),
                                   (''wifi_mac'', JStr wifi_mac),
                                   (''bt_mac'', JStr bt_mac),
                                   (''timestamp'', JStr (captured_at s)),
                                   (''port'', JStr port)]
           in case py_append (mac_database self) device_info of
                Inl e \<Rightarrow> Inl e
              | Inr db \<Rightarrow>
                  (case add_one (device_counter self) of
                     Inl e \<Rightarrow> Inl e
                   | Inr n \<Rightarrow>
                       (let self = self\<lparr>mac_database := db, device_counter := n\<rparr>
                        in Inr (device_info, self, save_database self (saved_at s))))))"

fun read_loop ::
  "poll list \<Rightarrow> session \<Rightarrow> string \<Rightarrow> manager \<Rightarrow> content option
     \<Rightarrow> error + (json option \<times> manager \<times> content option)" where
  \<comment> \<open>the \<open>while\<close> loop; \<open>wifi_mac\<close> is still \<open>None\<close> whenever the loop tests it, since the
      branch that sets it returns\<close>
  "read_loop [] s port self file = Inr (None, self, file)"
| "read_loop (Quiet # ps) s port self file = read_loop ps s port self file"
| "read_loop (Broken # ps) s port self file = Inr (None, self, file)"
| "read_loop (Received raw # ps) s port self file =
     (let line = strip raw
      in if line \<noteq> [] then
           (case parse_mac_from_boot_message line of
              Some mac \<Rightarrow>
                (if mac \<noteq> [] then
                   (case record_device s port mac self of
                      Inl e \<Rightarrow> Inl e
                    | Inr (device_info, self, saved) \<Rightarrow> Inr (Some device_info, self, Some saved))
                 else read_loop ps s port self file)
            | None \<Rightarrow> read_loop ps s port self file)
         else read_loop ps s port self file)"

definition collect_mac_from_reset ::
  "session \<Rightarrow> string \<Rightarrow> manager \<Rightarrow> content option
     \<Rightarrow> error + (json option \<times> manager \<times> content option)" where
  \<comment> \<open>the result is the returned value (\<open>None\<close> or the record), the manager and the
      file afterwards; \<open>Inl\<close> is an exception the method does not catch\<close>
  "collect_mac_from_reset s port self file =
     (if opens s then read_loop (polls s) s port self file
      else Inr (None, self, file))"

subsection \<open>Runs of the program\<close>

text \<open>
  A process is a live manager or none; the file outlives it. \<open>Launch\<close> starts the
  program (\<open>manager = ESP32Manager()\<close> in \<open>main\<close>), \<open>Capture\<close> is one call of
  \<open>collect_mac_from_reset\<close> by \<open>run_collection_mode\<close>. An exception that nothing
  catches ends the process. \<open>run\<close> returns the records the captures returned, in order.
\<close>

record world =
  process :: "manager option"
  disk :: "content option"

datatype step = Launch | Capture string session

fun run :: "step list \<Rightarrow> world \<Rightarrow> json list \<times> world" where
  "run [] w = ([], w)"
| "run (Launch # ss) w =
     (case ESP32Manager 115200 30 (disk w) of
        Inl e \<Rightarrow> run ss (w\<lparr>process := None\<rparr>)
      | Inr m \<Rightarrow> run ss (w\<lparr>process := Some m\<rparr>))"
| "run (Capture port s # ss) w =
     (case process w of
        None \<Rightarrow> run ss w
      | Some m \<Rightarrow>
          (case collect_mac_from_reset s port m (disk w) of
             Inl e \<Rightarrow> run ss (w\<lparr>process := None\<rparr>)
           | Inr (None, m', file) \<Rightarrow> run ss \<lparr>process = Some m', disk = file\<rparr>
           | Inr (Some device_info, m', file) \<Rightarrow>
               (case run ss \<lparr>process = Some m', disk = file\<rparr> of
                  (infos, w') \<Rightarrow> (device_info # infos, w'))))"

definition record_id :: "json \<Rightarrow> json" where
  \<comment> \<open>\<open>device_info['id']\<close> of a record\<close>
  "record_id info = (case info of JObj d \<Rightarrow> dict_get d ''id'' JNull | _ \<Rightarrow> JNull)"

section \<open>Notions the properties are stated with\<close>

subsection \<open>Addresses as six bytes\<close>

definition is_address :: "int list \<Rightarrow> bool" where
  "is_address bs = (length bs = 6 \<and> list_all (\<lambda>b. 0 \<le> b \<and> b < 256) bs)"

definition byte_hex :: "int \<Rightarrow> string" where
  \<comment> \<open>a byte as two upper-case hex digits\<close>
  "byte_hex b = [hex_digit (b div 16), hex_digit (b mod 16)]"

definition mac_string :: "int list \<Rightarrow> string" where
  \<comment> \<open>the canonical form \<open>XX:XX:XX:XX:XX:XX\<close> of an address\<close>
  "mac_string bs = join '':'' (map byte_hex bs)"

definition be_value :: "int list \<Rightarrow> int" where
  \<comment> \<open>the bytes as a big-endian unsigned integer\<close>
  "be_value bs = foldl (\<lambda>a b. 256 * a + b) 0 bs"

fun be_bytes :: "nat \<Rightarrow> int \<Rightarrow> int list" where
  \<comment> \<open>the \<open>k\<close> low bytes of an integer, the most significant first\<close>
  "be_bytes 0 n = []"
| "be_bytes (Suc k) n = be_bytes k (n div 256) @ [n mod 256]"

definition deriveAddress :: "int list \<Rightarrow> int \<Rightarrow> int list" where
  \<comment> \<open>the derivation in the words of the specification: the 48-bit big-endian value
      plus the offset, reduced modulo \<open>2^48\<close>\<close>
  "deriveAddress bs offset = be_bytes 6 ((be_value bs + offset) mod 2 ^ 48)"

definition is_canonical :: "string \<Rightarrow> bool" where
  \<comment> \<open>six groups of two upper-case hex digits with colons between them\<close>
  "is_canonical s =
     (length s = 17
      \<and> list_all (\<lambda>i. if i mod 3 = 2 then s ! i = CHR '':'' else is_upper_hex (s ! i)) [0..<17])"

subsection \<open>Serial sessions\<close>

definition no_address :: "poll \<Rightarrow> bool" where
  \<comment> \<open>a pass of the loop that reads nothing, or a line without an address\<close>
  "no_address p =
     (case p of Quiet \<Rightarrow> True
      | Received raw \<Rightarrow> parse_mac_from_boot_message (strip raw) = None
      | Broken \<Rightarrow> False)"

definition fresh_manager :: manager where
  \<comment> \<open>the manager \<open>ESP32Manager()\<close> builds when there is no file\<close>
  "fresh_manager = \<lparr>baudrate = 115200, timeout = 30, mac_database = JArr [],
                     device_counter = JInt 1, db_file = ''esp32_mac_database.json''\<rparr>"

definition silent_session :: session where
  \<comment> \<open>a board that prints its reset reason and nothing else before the deadline\<close>
  "silent_session = \<lparr>opens = True,
                      polls = [Quiet, Received ''rst:0x1 (POWERON_RESET),boot:0x13'', Quiet],
                      captured_at = ''2025-01-01T10:00:00'', saved_at = ''2025-01-01T10:00:01''\<rparr>"

definition busy_session :: session where
  \<comment> \<open>a port that \<open>serial.Serial\<close> cannot open\<close>
  "busy_session = \<lparr>opens = False, polls = [],
                    captured_at = ''2025-01-01T10:00:00'', saved_at = ''2025-01-01T10:00:01''\<rparr>"

definition boot_session :: session where
  \<comment> \<open>the boot stream of the end-to-end scenario\<close>
  "boot_session = \<lparr>opens = True,
                    polls = [Received ''boot'', Received ''MAC: 24:6F:28:AA:BB:CC''],
                    captured_at = ''2025-01-01T10:00:00'', saved_at = ''2025-01-01T10:00:01''\<rparr>"

definition stocked_records :: "json list" where
  \<comment> \<open>two records, as two captures would have stored them\<close>
  "stocked_records = [JObj [(''id'', JInt 1), (''wifi_mac'', JStr ''24:6F:28:AA:BB:CC''),
                                 (''bt_mac'', JStr ''24:6F:28:AA:BB:CE''),
                                 (''timestamp'', JStr ''2025-01-01T10:00:00''),
                                 (''port'', JStr ''/dev/ttyUSB0'')],
                           JObj [(''id'', JInt 2), (''wifi_mac'', JStr ''24:6F:28:AA:BB:D0''),
                                 (''bt_mac'', JStr ''24:6F:28:AA:BB:D2''),
                                 (''timestamp'', JStr ''2025-01-01T10:05:00''),
                                 (''port'', JStr ''/dev/ttyUSB1'')]]"

definition stocked_manager :: manager where
  \<comment> \<open>a manager with its own settings that holds the two records and the counter 3\<close>
  "stocked_manager =
     \<lparr>baudrate = 9600, timeout = 5, mac_database = JArr stocked_records,
      device_counter = JInt 3, db_file = ''esp32_mac_database.json''\<rparr>"

subsection \<open>Fixed-width hex and sample addresses\<close>

fun hex_fixed :: "nat \<Rightarrow> int \<Rightarrow> string" where
  \<comment> \<open>the \<open>k\<close> low hex digits of an integer, the most significant first\<close>
  "hex_fixed 0 n = []"
| "hex_fixed (Suc k) n = hex_fixed k (n div 16) @ [hex_digit (n mod 16)]"

definition sample_address :: "int list" where
  "sample_address = [36, 111, 40, 170, 187, 204]"

definition top_address :: "int list" where
  "top_address = [255, 255, 255, 255, 255, 255]"

definition zero_address :: "int list" where
  "zero_address = [0, 0, 0, 0, 0, 0]"

subsection \<open>Invariant of a run\<close>

definition numbered :: "json list \<Rightarrow> bool" where
  \<comment> \<open>the identifiers of the records are 1, 2, ... in the order of the list\<close>
  "numbered ds = (map record_id ds = map JInt [1..int (length ds)])"

definition consistent :: "json list \<Rightarrow> world \<Rightarrow> bool" where
  \<comment> \<open>the manager, when one is alive, and the file, when there is one, both hold the
      records \<open>ds\<close> and the next identifier \<open>length ds + 1\<close>\<close>
  "consistent ds w =
     (numbered ds
      \<and> (case process w of None \<Rightarrow> True
         | Some m \<Rightarrow> mac_database m = JArr ds \<and> device_counter m = JInt (int (length ds) + 1))
      \<and> (case disk w of None \<Rightarrow> ds = []
         | Some c \<Rightarrow> (\<exists>m now. mac_database m = JArr ds
                          \<and> device_counter m = JInt (int (length ds) + 1)
                          \<and> c = save_database m now)))"

subsection \<open>Hex byte-groups of a line\<close>

fun hex_groups :: "string \<Rightarrow> nat" where
  \<comment> \<open>the number of hex byte-groups of a line: pairs of adjacent hex digits that do
      not overlap, counted from the left\<close>
  "hex_groups (a # b # r) =
     (if is_hex a \<and> is_hex b then Suc (hex_groups r) else hex_groups (b # r))"
| "hex_groups r = 0"

fun chain_at :: "string \<Rightarrow> nat" where
  \<comment> \<open>the number of hex byte-groups joined by \<open>:\<close> or \<open>-\<close> that start at the head of the
      text\<close>
  "chain_at (a # b # c # r) =
     (if is_hex a \<and> is_hex b then (if one_of '':-'' c then Suc (chain_at r) else 1) else 0)"
| "chain_at [a, b] = (if is_hex a \<and> is_hex b then 1 else 0)"
| "chain_at r = 0"

fun longest_chain :: "string \<Rightarrow> nat" where
  \<comment> \<open>the longest run of joined hex byte-groups anywhere in the line\<close>
  "longest_chain [] = 0"
| "longest_chain (c # cs) = max (chain_at (c # cs)) (longest_chain cs)"

section \<open>Properties\<close>

subsection \<open>Loading and saving the database\<close>

text \<open>
  C9. A database file whose content \<open>json.load\<close> rejects makes the constructor fail with
  the decoder's exception, which nothing catches: the program stops instead of going on
  with an empty database and the counter 1. Without a file the constructor gives the
  empty database and the next identifier 1.
\<close>

theorem load_malformed_is_fatal:
  "ESP32Manager baud tmo (Some Malformed) = Inl JSONDecodeError
   \<and> ESP32Manager baud tmo None =
       Inr \<lparr>baudrate = baud, timeout = tmo, mac_database = JArr [], device_counter = JInt 1,
            db_file = ''esp32_mac_database.json''\<rparr>"
  by (simp add: ESP32Manager_def load_database_def)

text \<open>
  C10, as stated, fails: a JSON object without \<open>next_id\<close> whose \<open>devices\<close> is a number has
  no \<open>len\<close>, and the \<open>print\<close> that ends \<open>load_database\<close> raises \<open>TypeError\<close>.
\<close>

theorem load_missing_next_id_counterexample:
  "ESP32Manager 115200 30 (Some (Document (JObj [(''devices'', JInt 5)]))) = Inl TypeError"
  by (simp add: ESP32Manager_def load_database_def dict_get_def py_len_def)

text \<open>
  C10, amended. A JSON object without the key \<open>devices\<close> loads without error, with the
  empty device list (and the next identifier the file gives, or 1). A JSON object without
  the key \<open>next_id\<close> loads without error with the next identifier 1, provided its
  \<open>devices\<close>, when present, is a value that has a length (a list, an object, a string).
\<close>

theorem load_missing_keys_default:
  "(map_of d ''devices'' = None \<longrightarrow>
      load_database self (Some (Document (JObj d))) =
        Inr (self\<lparr>mac_database := JArr [], device_counter := dict_get d ''next_id'' (JInt 1)\<rparr>))
   \<and> (map_of d ''next_id'' = None \<longrightarrow> py_len (dict_get d ''devices'' (JArr [])) \<noteq> Inl TypeError \<longrightarrow>
      load_database self (Some (Document (JObj d))) =
        Inr (self\<lparr>mac_database := dict_get d ''devices'' (JArr []), device_counter := JInt 1\<rparr>))"
  by (auto simp add: load_database_def dict_get_def py_len_def split: json.splits option.splits)

theorem load_missing_keys_default_witness:
  "map_of [(''next_id'', JInt 7)] ''devices'' = None
   \<and> load_database fresh_manager (Some (Document (JObj [(''next_id'', JInt 7)]))) =
       Inr (fresh_manager\<lparr>mac_database := JArr [], device_counter := JInt 7\<rparr>)
   \<and> map_of [(''devices'', JArr [JInt 3])] ''next_id'' = None
   \<and> py_len (dict_get [(''devices'', JArr [JInt 3])] ''devices'' (JArr [])) \<noteq> Inl TypeError
   \<and> load_database fresh_manager (Some (Document (JObj [(''devices'', JArr [JInt 3])]))) =
       Inr (fresh_manager\<lparr>mac_database := JArr [JInt 3], device_counter := JInt 1\<rparr>)"
proof -
  have a: "map_of [(''next_id'', JInt 7)] ''devices'' = None"
    by simp
  have b: "map_of [(''devices'', JArr [JInt 3])] ''next_id'' = None"
    by simp
  have c: "py_len (dict_get [(''devices'', JArr [JInt 3])] ''devices'' (JArr [])) \<noteq> Inl TypeError"
    by (simp add: dict_get_def py_len_def)
  from a load_missing_keys_default [of "[(''next_id'', JInt 7)]" fresh_manager]
  have "load_database fresh_manager (Some (Document (JObj [(''next_id'', JInt 7)]))) =
          Inr (fresh_manager\<lparr>mac_database := JArr [], device_counter := JInt 7\<rparr>)"
    by (simp add: dict_get_def)
  moreover from b c load_missing_keys_default [of "[(''devices'', JArr [JInt 3])]" fresh_manager]
  have "load_database fresh_manager (Some (Document (JObj [(''devices'', JArr [JInt 3])]))) =
          Inr (fresh_manager\<lparr>mac_database := JArr [JInt 3], device_counter := JInt 1\<rparr>)"
    by (simp add: dict_get_def)
  ultimately show ?thesis
    using a b c by blast
qed

text \<open>
  C4. Saving a catalog (a list of records and any counter) writes its \<open>devices\<close> and
  \<open>next_id\<close> to the file; loading that file into any manager gives that manager these
  records and this counter; saving again writes the same \<open>devices\<close> array and the same
  \<open>next_id\<close>, so the two files are equal, the field \<open>last_updated\<close> apart.
\<close>

theorem save_load_save_roundtrip:
  "mac_database C = JArr ds \<Longrightarrow>
     save_database C t1 =
       Document (JObj [(''devices'', JArr ds), (''next_id'', device_counter C),
                       (''last_updated'', JStr t1)])
     \<and> load_database self (Some (save_database C t1)) =
         Inr (self\<lparr>mac_database := JArr ds, device_counter := device_counter C\<rparr>)
     \<and> save_database (self\<lparr>mac_database := JArr ds, device_counter := device_counter C\<rparr>) t2 =
         Document (JObj [(''devices'', JArr ds), (''next_id'', device_counter C),
                         (''last_updated'', JStr t2)])
     \<and> without_last_updated
           (save_database (self\<lparr>mac_database := JArr ds, device_counter := device_counter C\<rparr>) t2)
         = without_last_updated (save_database C t1)"
  by (simp add: load_database_def save_database_def dict_get_def py_len_def
        without_last_updated_def)

theorem save_load_save_roundtrip_witness:
  "mac_database stocked_manager = JArr stocked_records
   \<and> length stocked_records = 2
   \<and> device_counter stocked_manager = JInt 3
   \<and> fresh_manager \<noteq> stocked_manager
   \<and> save_database stocked_manager ''2025-01-01T10:05:01'' =
       Document (JObj [(''devices'', JArr stocked_records), (''next_id'', JInt 3),
                       (''last_updated'', JStr ''2025-01-01T10:05:01'')])
   \<and> load_database fresh_manager (Some (save_database stocked_manager ''2025-01-01T10:05:01''))
       = Inr (fresh_manager\<lparr>mac_database := JArr stocked_records, device_counter := JInt 3\<rparr>)
   \<and> save_database (fresh_manager\<lparr>mac_database := JArr stocked_records,
                                      device_counter := JInt 3\<rparr>) ''2025-02-02T08:00:00'' =
       Document (JObj [(''devices'', JArr stocked_records), (''next_id'', JInt 3),
                       (''last_updated'', JStr ''2025-02-02T08:00:00'')])
   \<and> without_last_updated
         (save_database (fresh_manager\<lparr>mac_database := JArr stocked_records,
                                        device_counter := JInt 3\<rparr>) ''2025-02-02T08:00:00'')
       = without_last_updated (save_database stocked_manager ''2025-01-01T10:05:01'')"
proof -
  have h: "mac_database stocked_manager = JArr stocked_records"
    by (simp add: stocked_manager_def)
  have c: "device_counter stocked_manager = JInt 3"
    by (simp add: stocked_manager_def)
  have d: "fresh_manager \<noteq> stocked_manager"
    by (simp add: fresh_manager_def stocked_manager_def)
  have l: "length stocked_records = 2"
    by (simp add: stocked_records_def)
  note r = save_load_save_roundtrip [OF h, of "''2025-01-01T10:05:01''" fresh_manager
             "''2025-02-02T08:00:00''", unfolded c]
  from r h c d l show ?thesis by blast
qed

subsection \<open>Capture: timeout and open failure\<close>

lemma read_loop_no_address:
  "list_all no_address ps \<Longrightarrow> read_loop ps s port self file = Inr (None, self, file)"
proof (induction ps)
  case Nil
  show ?case by simp
next
  case (Cons p ps)
  then show ?case
    by (cases p) (simp_all add: no_address_def Let_def)
qed

lemma silent_session_no_address: "list_all no_address (polls silent_session)"
  unfolding silent_session_def by code_simp

text \<open>
  C5. When the port opens and no pass of the loop before the deadline meets a line with
  an address, \<open>collect_mac_from_reset\<close> returns \<open>None\<close> and leaves the manager (the device
  list and the counter) and the file as they were.
\<close>

theorem timeout_leaves_catalog_unchanged:
  "opens s \<Longrightarrow> list_all no_address (polls s)
     \<Longrightarrow> collect_mac_from_reset s port self file = Inr (None, self, file)"
  by (simp add: collect_mac_from_reset_def read_loop_no_address)

theorem timeout_leaves_catalog_unchanged_witness:
  "opens silent_session \<and> list_all no_address (polls silent_session)
   \<and> collect_mac_from_reset silent_session ''/dev/ttyUSB0'' fresh_manager None
       = Inr (None, fresh_manager, None)"
proof -
  have h: "opens silent_session"
    by (simp add: silent_session_def)
  from timeout_leaves_catalog_unchanged [OF h silent_session_no_address] h
    silent_session_no_address
  show ?thesis by blast
qed

text \<open>
  C6, as stated, fails: a port that does not open and a capture that times out give the
  caller the same value, \<open>None\<close>.
\<close>

theorem open_failure_counterexample:
  "collect_mac_from_reset busy_session ''/dev/ttyUSB0'' fresh_manager None
     = collect_mac_from_reset silent_session ''/dev/ttyUSB0'' fresh_manager None"
  using silent_session_no_address
  by (simp add: collect_mac_from_reset_def read_loop_no_address busy_session_def)

text \<open>
  C6, amended. A port that does not open makes \<open>collect_mac_from_reset\<close> return \<open>None\<close>
  with the manager and the file unchanged, which is exactly what a capture that times
  out returns: the result does not tell the two failures apart.
\<close>

theorem open_failure_same_as_timeout:
  "\<not> opens s \<Longrightarrow> opens s' \<Longrightarrow> list_all no_address (polls s')
     \<Longrightarrow> collect_mac_from_reset s port self file = Inr (None, self, file)
         \<and> collect_mac_from_reset s port self file = collect_mac_from_reset s' port self file"
  by (simp add: collect_mac_from_reset_def read_loop_no_address)

theorem open_failure_same_as_timeout_witness:
  "\<not> opens busy_session \<and> opens silent_session \<and> list_all no_address (polls silent_session)
   \<and> collect_mac_from_reset busy_session ''/dev/ttyUSB0'' fresh_manager None
       = Inr (None, fresh_manager, None)
   \<and> collect_mac_from_reset busy_session ''/dev/ttyUSB0'' fresh_manager None
       = collect_mac_from_reset silent_session ''/dev/ttyUSB0'' fresh_manager None"
proof -
  have a: "\<not> opens busy_session"
    by (simp add: busy_session_def)
  have b: "opens silent_session"
    by (simp add: silent_session_def)
  from open_failure_same_as_timeout [OF a b silent_session_no_address] a b
    silent_session_no_address
  show ?thesis by blast
qed

subsection \<open>Extracting an address from a line\<close>

text \<open>
  A line has no address when it holds fewer than six pairs of hex digits (\<open>hex_groups\<close>
  counts every pair, also the \<open>AC\<close> of a label \<open>MAC\<close>), and also when no six of its hex
  byte-groups are joined by \<open>:\<close> or \<open>-\<close> (\<open>longest_chain\<close>). A label that ends in a
  colon is stripped.
\<close>

lemma hex_groups_Cons:
  "hex_groups s \<le> hex_groups (c # s) \<and> hex_groups (c # s) \<le> Suc (hex_groups s)"
proof (induction s arbitrary: c)
  case Nil
  show ?case by simp
next
  case (Cons a s)
  show ?case
  proof (cases s)
    case Nil
    then show ?thesis by simp
  next
    case (Cons b r)
    with Cons.IH [of a] show ?thesis by auto
  qed
qed

lemma hex_groups_append: "hex_groups s \<le> hex_groups (p @ s)"
proof (induction p)
  case Nil
  show ?case by simp
next
  case (Cons c p)
  then show ?case
    using hex_groups_Cons [of "p @ s" c] by simp
qed

lemma match_at_Set: "r \<in> set (match_at (Set p) s) \<Longrightarrow> \<exists>q. s = q @ r"
  by (cases s) (auto split: if_splits)

lemma match_at_Cat: "r \<in> set (match_at (Cat a b) s) \<longleftrightarrow> (\<exists>m \<in> set (match_at a s). r \<in> set (match_at b m))"
  by simp

lemma match_at_Plus: "r \<in> set (match_at (Plus a) s) \<longleftrightarrow>
   (\<exists>m \<in> set (match_at a s). (length m < length s \<and> r \<in> set (match_at (Plus a) m)) \<or> r = m)"
  by (subst match_at.simps(4)) auto


lemma match_at_suffix: "r \<in> set (match_at x s) \<Longrightarrow> \<exists>p. s = p @ r"
proof (induction x s arbitrary: r rule: match_at.induct)
  case (1 s)
  then have "s = [] @ r" by simp
  then show ?case by (rule exI)
next
  case (2 p s)
  then show ?case by (rule match_at_Set)
next
  case (3 a b s)
  from "3.prems" obtain m where m: "m \<in> set (match_at a s)" "r \<in> set (match_at b m)"
    unfolding match_at_Cat by blast
  from "3.IH"(1) [OF m(1)] obtain p where "s = p @ m" by blast
  moreover from "3.IH"(2) [OF m(1) m(2)] obtain q where "m = q @ r" by blast
  ultimately have "s = (p @ q) @ r" by simp
  then show ?case by (rule exI)
next
  case (4 a s)
  from "4.prems" obtain m where m: "m \<in> set (match_at a s)"
    and r: "(length m < length s \<and> r \<in> set (match_at (Plus a) m)) \<or> r = m"
    unfolding match_at_Plus [of r a s] by blast
  from "4.IH"(1) [OF m] obtain p where p: "s = p @ m" by blast
  from r show ?case
  proof
    assume "r = m"
    with p show ?thesis by blast
  next
    assume h: "length m < length s \<and> r \<in> set (match_at (Plus a) m)"
    then have "\<exists>q. m = q @ r"
      using "4.IH"(2) [OF m] by blast
    then obtain q where "m = q @ r" by blast
    with p have "s = (p @ q) @ r" by simp
    then show ?thesis by (rule exI)
  qed
qed

lemma not_hex_separator: "one_of '':-'' c \<Longrightarrow> \<not> is_hex c"
  by (auto simp add: one_of_def is_hex_def in_range_def code_def)

lemma match_at_hex_pair:
  "r \<in> set (match_at (repeat 2 (Set is_hex)) s) \<Longrightarrow> \<exists>a b. s = a # b # r \<and> is_hex a \<and> is_hex b"
  by (auto simp add: numeral_2_eq_2 split: list.splits if_splits)

lemma hex_pair_groups:
  assumes "r \<in> set (match_at (repeat 2 (Set is_hex)) s)"
  shows "Suc (hex_groups r) \<le> hex_groups s"
proof -
  from match_at_hex_pair [OF assms] obtain a b where "s = a # b # r" "is_hex a" "is_hex b"
    by blast
  then show ?thesis by simp
qed

lemma group_groups:
  assumes "r \<in> set (match_at (Cat (repeat 2 (Set is_hex)) (Set (one_of '':-''))) s)"
  shows "Suc (hex_groups r) \<le> hex_groups s"
proof -
  from assms obtain m where m: "m \<in> set (match_at (repeat 2 (Set is_hex)) s)"
    and r: "r \<in> set (match_at (Set (one_of '':-'')) m)"
    unfolding match_at_Cat by blast
  from r obtain c where "m = c # r"
    by (cases m) (auto split: if_splits)
  then have "hex_groups r \<le> hex_groups m"
    using hex_groups_Cons [of r c] by simp
  with hex_pair_groups [OF m] show ?thesis by simp
qed

lemma repeat_groups:
  assumes step: "\<And>r s. r \<in> set (match_at g s) \<Longrightarrow> Suc (hex_groups r) \<le> hex_groups s"
  shows "r \<in> set (match_at (repeat n g) s) \<Longrightarrow> n + hex_groups r \<le> hex_groups s"
proof (induction n arbitrary: s)
  case 0
  then show ?case by simp
next
  case (Suc n)
  from Suc.prems obtain m where m: "m \<in> set (match_at g s)"
    and r: "r \<in> set (match_at (repeat n g) m)"
    by auto
  from Suc.IH [OF r] step [OF m] show ?case by simp
qed

lemma bare_groups:
  assumes "r \<in> set (match_at bare_pattern s)"
  shows "6 \<le> hex_groups s"
proof -
  from assms obtain m
    where m: "m \<in> set (match_at (repeat 5 (Cat (repeat 2 (Set is_hex)) (Set (one_of '':-'')))) s)"
      and r: "r \<in> set (match_at (repeat 2 (Set is_hex)) m)"
    unfolding bare_pattern_def match_at_Cat by blast
  from repeat_groups [of "Cat (repeat 2 (Set is_hex)) (Set (one_of '':-''))", OF group_groups m]
  have "5 + hex_groups m \<le> hex_groups s" .
  with hex_pair_groups [OF r] show ?thesis by simp
qed

lemma Cat_groups:
  assumes "\<And>r m. r \<in> set (match_at b m) \<Longrightarrow> k \<le> hex_groups m"
    and "r \<in> set (match_at (Cat a b) s)"
  shows "k \<le> hex_groups s"
proof -
  from assms(2) obtain m where m: "m \<in> set (match_at a s)" and r: "r \<in> set (match_at b m)"
    unfolding match_at_Cat by blast
  from match_at_suffix [OF m] obtain p where "s = p @ m" by blast
  with hex_groups_append [of m p] assms(1) [OF r] show ?thesis by simp
qed

lemma labelled_groups:
  assumes "r \<in> set (match_at labelled_pattern s)"
  shows "6 \<le> hex_groups s"
  using assms unfolding labelled_pattern_def
  by (elim Cat_groups [rotated] bare_groups)

lemma search_groups:
  assumes "\<And>r t. r \<in> set (match_at x t) \<Longrightarrow> k \<le> hex_groups t"
  shows "search x s = Some g \<Longrightarrow> k \<le> hex_groups s"
proof (induction s)
  case Nil
  then obtain r where "r \<in> set (match_at x [])"
    by (auto split: list.splits)
  from assms [OF this] show ?case .
next
  case (Cons c cs)
  show ?case
  proof (cases "match_at x (c # cs)")
    case Nil
    with Cons have "k \<le> hex_groups cs" by simp
    with hex_groups_Cons [of cs c] show ?thesis by simp
  next
    case (Cons r rs)
    then have "r \<in> set (match_at x (c # cs))" by simp
    from assms [OF this] show ?thesis .
  qed
qed

lemma parse_none_below_six_groups:
  assumes "hex_groups line < 6"
  shows "parse_mac_from_boot_message line = None"
proof -
  have lab: "6 \<le> hex_groups line" if "search labelled_pattern line = Some g" for g
    by (rule search_groups [OF _ that]) (rule labelled_groups)
  have bare: "6 \<le> hex_groups line" if "search bare_pattern line = Some g" for g
    by (rule search_groups [OF _ that]) (rule bare_groups)
  have "search labelled_pattern line = None"
    using lab assms by (cases "search labelled_pattern line") auto
  moreover have "search bare_pattern line = None"
    using bare assms by (cases "search bare_pattern line") auto
  ultimately show ?thesis
    by (simp add: parse_mac_from_boot_message_def mac_patterns_def)
qed

lemma longest_chain_append: "longest_chain s \<le> longest_chain (p @ s)"
  by (induction p) auto

lemma chain_at_le_longest: "chain_at s \<le> longest_chain s"
  by (cases s) auto

lemma hex_pair_chain:
  assumes "r \<in> set (match_at (repeat 2 (Set is_hex)) s)"
  shows "1 \<le> chain_at s"
proof -
  from match_at_hex_pair [OF assms] obtain a b where s: "s = a # b # r" "is_hex a" "is_hex b"
    by blast
  then show ?thesis by (cases r) auto
qed

lemma group_chain:
  assumes "r \<in> set (match_at (Cat (repeat 2 (Set is_hex)) (Set (one_of '':-''))) s)"
  shows "Suc (chain_at r) \<le> chain_at s"
proof -
  from assms obtain m where m: "m \<in> set (match_at (repeat 2 (Set is_hex)) s)"
    and r: "r \<in> set (match_at (Set (one_of '':-'')) m)"
    unfolding match_at_Cat by blast
  from r obtain c where c: "m = c # r" "one_of '':-'' c"
    by (cases m) (auto split: if_splits)
  from match_at_hex_pair [OF m] obtain a b where "s = a # b # m" "is_hex a" "is_hex b"
    by blast
  with c show ?thesis by simp
qed

lemma repeat_chain:
  "r \<in> set (match_at (repeat n (Cat (repeat 2 (Set is_hex)) (Set (one_of '':-'')))) s)
     \<Longrightarrow> n + chain_at r \<le> chain_at s"
proof (induction n arbitrary: s)
  case 0
  then show ?case by simp
next
  case (Suc n)
  from Suc.prems obtain m
    where m: "m \<in> set (match_at (Cat (repeat 2 (Set is_hex)) (Set (one_of '':-''))) s)"
      and r: "r \<in> set (match_at (repeat n (Cat (repeat 2 (Set is_hex)) (Set (one_of '':-'')))) m)"
    by auto
  from Suc.IH [OF r] group_chain [OF m] show ?case by simp
qed

lemma bare_chain:
  assumes "r \<in> set (match_at bare_pattern s)"
  shows "6 \<le> longest_chain s"
proof -
  from assms obtain m
    where m: "m \<in> set (match_at (repeat 5 (Cat (repeat 2 (Set is_hex)) (Set (one_of '':-'')))) s)"
      and r: "r \<in> set (match_at (repeat 2 (Set is_hex)) m)"
    unfolding bare_pattern_def match_at_Cat by blast
  from repeat_chain [OF m] hex_pair_chain [OF r] have "6 \<le> chain_at s" by simp
  with chain_at_le_longest [of s] show ?thesis by simp
qed

lemma Cat_chain:
  assumes "\<And>r m. r \<in> set (match_at b m) \<Longrightarrow> k \<le> longest_chain m"
    and "r \<in> set (match_at (Cat a b) s)"
  shows "k \<le> longest_chain s"
proof -
  from assms(2) obtain m where m: "m \<in> set (match_at a s)" and r: "r \<in> set (match_at b m)"
    unfolding match_at_Cat by blast
  from match_at_suffix [OF m] obtain p where "s = p @ m" by blast
  with longest_chain_append [of m p] assms(1) [OF r] show ?thesis by simp
qed

lemma labelled_chain:
  assumes "r \<in> set (match_at labelled_pattern s)"
  shows "6 \<le> longest_chain s"
  using assms unfolding labelled_pattern_def
  by (elim Cat_chain [rotated] bare_chain)

lemma search_chain:
  assumes "\<And>r t. r \<in> set (match_at x t) \<Longrightarrow> k \<le> longest_chain t"
  shows "search x s = Some g \<Longrightarrow> k \<le> longest_chain s"
proof (induction s)
  case Nil
  then obtain r where "r \<in> set (match_at x [])"
    by (auto split: list.splits)
  from assms [OF this] show ?case .
next
  case (Cons c cs)
  show ?case
  proof (cases "match_at x (c # cs)")
    case Nil
    with Cons have "k \<le> longest_chain cs" by simp
    then show ?thesis by simp
  next
    case (Cons r rs)
    then have "r \<in> set (match_at x (c # cs))" by simp
    from assms [OF this] show ?thesis .
  qed
qed

lemma parse_none_below_six_joined_groups:
  assumes "longest_chain line < 6"
  shows "parse_mac_from_boot_message line = None"
proof -
  have lab: "6 \<le> longest_chain line" if "search labelled_pattern line = Some g" for g
    by (rule search_chain [OF _ that]) (rule labelled_chain)
  have bare: "6 \<le> longest_chain line" if "search bare_pattern line = Some g" for g
    by (rule search_chain [OF _ that]) (rule bare_chain)
  have "search labelled_pattern line = None"
    using lab assms by (cases "search labelled_pattern line") auto
  moreover have "search bare_pattern line = None"
    using bare assms by (cases "search bare_pattern line") auto
  ultimately show ?thesis
    by (simp add: parse_mac_from_boot_message_def mac_patterns_def)
qed

lemma five_groups_with_label:
  "longest_chain ''MAC: aa:bb:cc:dd:ee'' = 5
   \<and> parse_mac_from_boot_message ''MAC: aa:bb:cc:dd:ee'' = None"
  by code_simp

lemma parse_labelled_with_colon:
  "parse_mac_from_boot_message ''MAC: aa-bb-cc-dd-ee-ff'' = Some ''AA:BB:CC:DD:EE:FF''"
  by code_simp

text \<open>
  C2. For the second line of the claim, \<open>Got mac aa:bb:cc:dd:ee:ff ready\<close>, the
  labelled pattern matches
  \<open>mac aa:bb:cc:dd:ee:ff\<close>; the normalization removes only the labels that end in a colon
  (\<open>MAC:\<close>, \<open>Mac:\<close>, \<open>mac:\<close>), so the label stays and is upper-cased with the rest.
\<close>

theorem parse_keeps_label_without_colon:
  "parse_mac_from_boot_message ''Got mac aa:bb:cc:dd:ee:ff ready'' = Some ''MAC AA:BB:CC:DD:EE:FF''"
  by code_simp

subsection \<open>Deriving an address\<close>

lemma code_simps:
  "code CHR ''0'' = 48" "code CHR ''9'' = 57" "code CHR ''A'' = 65" "code CHR ''F'' = 70"
  "code CHR ''Z'' = 90" "code CHR ''a'' = 97" "code CHR ''f'' = 102" "code CHR ''z'' = 122"
  "code CHR '':'' = 58" "code CHR ''_'' = 95" "code CHR ''+'' = 43" "code CHR ''-'' = 45"
  "code CHR ''x'' = 120" "code CHR ''X'' = 88"
  by (simp_all add: code_def)

lemma code_hex_digit:
  "0 \<le> d \<Longrightarrow> d < 16 \<Longrightarrow> code (hex_digit d) = (if d < 10 then 48 + d else 55 + d)"
  by (simp add: code_def hex_digit_def)

lemma hex_digit_upper_hex: "0 \<le> d \<Longrightarrow> d < 16 \<Longrightarrow> is_upper_hex (hex_digit d)"
  by (simp add: is_upper_hex_def in_range_def code_hex_digit code_simps)

lemma hex_digit_value: "0 \<le> d \<Longrightarrow> d < 16 \<Longrightarrow> digit_value (hex_digit d) = d"
  by (simp add: digit_value_def in_range_def code_hex_digit code_simps)

lemma upper_hex_value: "is_upper_hex c \<Longrightarrow> 0 \<le> digit_value c \<and> digit_value c < 16"
  by (auto simp add: is_upper_hex_def digit_value_def in_range_def code_simps)

lemma upper_hex_not_special:
  "is_upper_hex c \<Longrightarrow> c \<noteq> CHR '':'' \<and> c \<noteq> CHR ''_'' \<and> c \<noteq> CHR ''+'' \<and> c \<noteq> CHR ''-''
     \<and> c \<noteq> CHR ''x'' \<and> c \<noteq> CHR ''X'' \<and> \<not> int_space c"
  by (auto simp add: is_upper_hex_def in_range_def int_space_def code_simps)


lemma replace_from_single: "replace_from 0 [c] [] s = filter (\<lambda>x. x \<noteq> c) s"
  by (induction s) auto

lemma replace_colon: "replace s '':'' [] = filter (\<lambda>x. x \<noteq> CHR '':'') s"
  by (simp add: replace_def replace_from_single)

lemma byte_hex_upper: "0 \<le> b \<Longrightarrow> b < 256 \<Longrightarrow> list_all is_upper_hex (byte_hex b)"
  by (simp add: byte_hex_def hex_digit_upper_hex)

lemma filter_colon_byte_hex:
  "0 \<le> b \<Longrightarrow> b < 256 \<Longrightarrow> filter (\<lambda>x. x \<noteq> CHR '':'') (byte_hex b) = byte_hex b"
  using byte_hex_upper [of b] upper_hex_not_special
  by (auto simp add: byte_hex_def)

lemma filter_colon_join:
  "list_all (\<lambda>b. 0 \<le> b \<and> b < 256) bs
     \<Longrightarrow> filter (\<lambda>x. x \<noteq> CHR '':'') (join '':'' (map byte_hex bs)) = concat (map byte_hex bs)"
proof (induction bs rule: induct_list012)
  case 1
  show ?case by simp
next
  case (2 b)
  then show ?case by (simp add: filter_colon_byte_hex)
next
  case (3 b c bs)
  then show ?case by (simp add: filter_colon_byte_hex)
qed

lemma no_underscore_no_double: "CHR ''_'' \<notin> set s \<Longrightarrow> no_double_underscore s"
  by (induction s rule: no_double_underscore.induct) auto

lemma int16_upper_hex:
  assumes "s \<noteq> []" and "list_all is_upper_hex s"
  shows "int16 s = Inr (foldl (\<lambda>a c. 16 * a + digit_value c) 0 s)"
proof -
  from assms obtain c cs where s: "s = c # cs"
    by (cases s) auto
  have all: "\<forall>x\<in>set s. is_upper_hex x"
    using assms(2) by (simp add: list_all_iff)
  have c: "is_upper_hex c"
    using all s by simp
  have drop: "dropWhile int_space s = s"
    using c upper_hex_not_special [of c] s by simp
  have sign: "(s \<noteq> [] \<and> (hd s = CHR ''+'' \<or> hd s = CHR ''-'')) = False"
    using c upper_hex_not_special [of c] s by simp
  have neg: "(s \<noteq> [] \<and> hd s = CHR ''-'') = False"
    using sign by blast
  have nopre: "(length s \<ge> 2 \<and> s ! 0 = CHR ''0'' \<and> (s ! 1 = CHR ''x'' \<or> s ! 1 = CHR ''X'')) = False"
  proof -
    have False if h: "length s \<ge> 2 \<and> s ! 0 = CHR ''0'' \<and> (s ! 1 = CHR ''x'' \<or> s ! 1 = CHR ''X'')"
    proof -
      from h have "s ! 1 \<in> set s" by simp
      then have "is_upper_hex (s ! 1)" using all by blast
      with upper_hex_not_special [of "s ! 1"] h show False by blast
    qed
    then show ?thesis by blast
  qed
  have body: "takeWhile (\<lambda>c. digit_value c < 16 \<or> c = CHR ''_'') s = s"
    using all upper_hex_value by (simp add: takeWhile_eq_all_conv)
  have nous: "CHR ''_'' \<notin> set s"
    using all upper_hex_not_special by blast
  have digits: "filter (\<lambda>c. c \<noteq> CHR ''_'') s = s"
    using nous by (auto simp add: filter_id_conv)
  have hd: "hd s \<noteq> CHR ''_''"
    using c upper_hex_not_special [of c] s by simp
  have last: "last s \<noteq> CHR ''_''"
    using nous assms(1) last_in_set by metis
  have "int16 s =
          (if s = [] \<or> hd s = CHR ''_'' \<or> last s = CHR ''_'' \<or> \<not> no_double_underscore s
              \<or> dropWhile int_space (drop (length s) s) \<noteq> []
           then Inl ValueError
           else Inr (foldl (\<lambda>a c. 16 * a + digit_value c) 0 s))"
    by (simp only: int16_def Let_def drop sign neg nopre if_False simp_thms body digits)
  then show ?thesis
    using hd assms(1) last no_underscore_no_double [OF nous] by simp
qed


lemma foldl_byte_hex:
  "list_all (\<lambda>b. 0 \<le> b \<and> b < 256) bs \<Longrightarrow>
     foldl (\<lambda>a c. 16 * a + digit_value c) a (concat (map byte_hex bs))
       = foldl (\<lambda>a b. 256 * a + b) a bs"
proof (induction bs arbitrary: a)
  case Nil
  show ?case by simp
next
  case (Cons b bs)
  then have b: "0 \<le> b" "b < 256" by simp_all
  have hi: "digit_value (hex_digit (b div 16)) = b div 16"
    using b by (intro hex_digit_value) auto
  have lo: "digit_value (hex_digit (b mod 16)) = b mod 16"
    by (intro hex_digit_value) auto
  have "16 * (16 * a + b div 16) + b mod 16 = 256 * a + b"
    by presburger
  with Cons hi lo show ?case
    by (simp add: byte_hex_def add.commute)
qed

lemma concat_byte_hex_upper:
  "list_all (\<lambda>b. 0 \<le> b \<and> b < 256) bs \<Longrightarrow> list_all is_upper_hex (concat (map byte_hex bs))"
  by (induction bs) (simp_all add: byte_hex_upper)

lemma int_of_address:
  assumes "is_address bs"
  shows "int16 (replace (mac_string bs) '':'' []) = Inr (be_value bs)"
proof -
  from assms have r: "list_all (\<lambda>b. 0 \<le> b \<and> b < 256) bs" and l: "length bs = 6"
    by (simp_all add: is_address_def)
  have ne: "concat (map byte_hex bs) \<noteq> []"
    using l by (cases bs) (simp_all add: byte_hex_def)
  show ?thesis
    using int16_upper_hex [OF ne concat_byte_hex_upper [OF r]]
    by (simp add: replace_colon mac_string_def filter_colon_join [OF r] foldl_byte_hex [OF r]
          be_value_def)
qed

lemma hex_digit_zero: "hex_digit 0 = CHR ''0''"
  by code_simp

lemma hex_fixed_zero: "hex_fixed k 0 = replicate k CHR ''0''"
  by (induction k) (simp_all add: hex_digit_zero replicate_append_same)

lemma pad_hex_upper:
  "0 \<le> n \<Longrightarrow> n < 16 ^ Suc k \<Longrightarrow>
     replicate (Suc k - length (hex_upper n)) CHR ''0'' @ hex_upper n = hex_fixed (Suc k) n"
proof (induction k arbitrary: n)
  case 0
  then show ?case by (subst (1 2) hex_upper.simps) simp
next
  case (Suc k)
  show ?case
  proof (cases "n < 16")
    case True
    then show ?thesis
      using Suc.prems by (subst (1 2) hex_upper.simps) (simp add: hex_fixed_zero replicate_append_same)
  next
    case False
    have d1: "0 \<le> n div 16"
      using Suc.prems by simp
    have "n < 16 * 16 ^ Suc k"
      using Suc.prems by simp
    then have d2: "n div 16 < 16 ^ Suc k"
      by linarith
    have u: "hex_upper n = hex_upper (n div 16) @ [hex_digit (n mod 16)]"
      using False by (subst hex_upper.simps) simp
    show ?thesis
      using Suc.IH [OF d1 d2] by (simp add: u)
  qed
qed


lemma format_in_range: 
  assumes "0 \<le> n" and "n < 2 ^ 48"
  shows "format_012X n = hex_fixed 12 n"
proof -
  have "n < 16 ^ Suc 11" using assms(2) by simp
  from pad_hex_upper [OF assms(1) this] have
    "replicate (Suc 11 - length (hex_upper n)) CHR ''0'' @ hex_upper n = hex_fixed (Suc 11) n" .
  moreover have "Suc 11 = 12" by simp
  ultimately show ?thesis
    using assms(1) by (simp only: format_012X_def) simp
qed

lemma hex_fixed_bytes: "hex_fixed (2 * k) n = concat (map byte_hex (be_bytes k n))"
proof (induction k arbitrary: n)
  case 0
  show ?case by simp
next
  case (Suc k)
  have "n div (16 * 16) = n div 16 div 16"
    by (rule zdiv_zmult2_eq) simp
  then have a: "n div 16 div 16 = n div 256"
    by simp
  have "n mod (16 * 16) = 16 * (n div 16 mod 16) + n mod 16"
    by (rule zmod_zmult2_eq) simp
  then have "n mod 256 = 16 * (n div 16 mod 16) + n mod 16"
    by simp
  then have b: "n mod 256 div 16 = n div 16 mod 16"
    by simp
  have c: "n mod 256 mod 16 = n mod 16"
    by (simp add: mod_mod_cancel)
  show ?case
    using Suc [of "n div 256"] by (simp add: byte_hex_def a b c)
qed

lemma length_be_bytes: "length (be_bytes k n) = k"
  by (induction k arbitrary: n) simp_all

lemma be_bytes_range: "list_all (\<lambda>b. 0 \<le> b \<and> b < 256) (be_bytes k n)"
  by (induction k arbitrary: n) simp_all

lemma is_address_be_bytes: "is_address (be_bytes 6 n)"
  by (simp add: is_address_def length_be_bytes be_bytes_range)

lemma be_value_snoc: "be_value (bs @ [b]) = 256 * be_value bs + b"
  by (simp add: be_value_def)

lemma be_value_be_bytes: "0 \<le> n \<Longrightarrow> n < 256 ^ k \<Longrightarrow> be_value (be_bytes k n) = n"
proof (induction k arbitrary: n)
  case 0
  then show ?case by (simp add: be_value_def)
next
  case (Suc k)
  have "0 \<le> n div 256" using Suc.prems by simp
  moreover have "n div 256 < 256 ^ k" using Suc.prems by simp
  ultimately have "be_value (be_bytes k (n div 256)) = n div 256"
    by (rule Suc.IH)
  then show ?case
    by (simp add: be_value_snoc)
qed

lemma be_bytes_be_value:
  "list_all (\<lambda>b. 0 \<le> b \<and> b < 256) bs \<Longrightarrow> be_bytes (length bs) (be_value bs) = bs"
proof (induction bs rule: rev_induct)
  case Nil
  show ?case by simp
next
  case (snoc b bs)
  then have b: "0 \<le> b" "b < 256" by simp_all
  have d: "(256 * be_value bs + b) div 256 = be_value bs"
    using b by simp
  have m: "(256 * be_value bs + b) mod 256 = b"
    using b by simp
  from snoc show ?case
    by (simp add: be_value_snoc d m)
qed

lemma be_value_bounds:
  "list_all (\<lambda>b. 0 \<le> b \<and> b < 256) bs \<Longrightarrow> 0 \<le> be_value bs \<and> be_value bs < 256 ^ length bs"
proof (induction bs rule: rev_induct)
  case Nil
  show ?case by (simp add: be_value_def)
next
  case (snoc b bs)
  then have "0 \<le> b" "b < 256" "0 \<le> be_value bs" "be_value bs < 256 ^ length bs"
    by simp_all
  then show ?case
    by (simp add: be_value_snoc)
qed

lemma length_six: "length xs = 6 \<Longrightarrow> \<exists>a b c d e f. xs = [a, b, c, d, e, f]"
  by (simp add: eval_nat_numeral length_Suc_conv) blast

lemma slices_of_bytes:
  assumes "length bs = 6"
  shows "join '':'' (map (\<lambda>i. slice (concat (map byte_hex bs)) i (i + 2)) [0, 2, 4, 6, 8, 10])
           = mac_string bs"
proof -
  from length_six [OF assms] obtain a b c d e f where "bs = [a, b, c, d, e, f]"
    by blast
  then show ?thesis
    by (simp add: mac_string_def byte_hex_def slice_def)
qed

lemma increment_mac_address:
  assumes "is_address bs"
  shows "increment_mac (mac_string bs) offset =
          Inr (join '':'' (map (\<lambda>i. slice (format_012X (be_value bs + offset)) i (i + 2))
                               [0, 2, 4, 6, 8, 10]))"
  by (simp add: increment_mac_def int_of_address [OF assms] Let_def)

lemma increment_mac_in_range:
  assumes "is_address bs" and "0 \<le> be_value bs + offset" and "be_value bs + offset < 2 ^ 48"
  shows "increment_mac (mac_string bs) offset = Inr (mac_string (be_bytes 6 (be_value bs + offset)))"
proof -
  have "format_012X (be_value bs + offset)
          = concat (map byte_hex (be_bytes 6 (be_value bs + offset)))"
    using format_in_range [OF assms(2,3)] hex_fixed_bytes [of 6 "be_value bs + offset"]
    by simp
  then show ?thesis
    using slices_of_bytes [of "be_bytes 6 (be_value bs + offset)"]
    by (simp add: increment_mac_address [OF assms(1)] length_be_bytes)
qed

lemma hex_upper_all: "0 \<le> n \<Longrightarrow> list_all is_upper_hex (hex_upper n)"
proof (induction n rule: hex_upper.induct)
  case (1 n)
  show ?case
  proof (cases "n < 16")
    case True
    then show ?thesis
      using "1.prems" by (subst hex_upper.simps) (simp add: hex_digit_upper_hex)
  next
    case False
    then have "list_all is_upper_hex (hex_upper (n div 16))"
      using "1.IH" "1.prems" by simp
    moreover have "is_upper_hex (hex_digit (n mod 16))"
      by (rule hex_digit_upper_hex) simp_all
    ultimately show ?thesis
      using False by (subst hex_upper.simps) simp
  qed
qed

lemma upper_hex_zero: "is_upper_hex CHR ''0''"
  by (simp add: is_upper_hex_def in_range_def code_simps)

lemma format_nonneg:
  assumes "0 \<le> n"
  shows "12 \<le> length (format_012X n)" and "list_all is_upper_hex (format_012X n)"
  using assms hex_upper_all [OF assms]
  by (auto simp add: format_012X_def list_all_iff upper_hex_zero)

lemma upt_17: "[0..<17] = [0, 1, 2, 3, 4, 5, 6, 7, 8, 9, 10, 11, 12, 13, 14, 15, 16]"
  by (simp add: upt_rec)

lemma length_twelve:
  assumes "12 \<le> length s"
  shows "\<exists>a b c d e f g h i j k l r. s = a # b # c # d # e # f # g # h # i # j # k # l # r"
proof -
  define t where "t = take 12 s"
  have "length t = Suc (Suc (Suc (Suc (Suc (Suc (Suc (Suc (Suc (Suc (Suc (Suc 0)))))))))))"
    using assms by (simp add: t_def)
  then obtain a b c d e f g h i j k l where "t = [a, b, c, d, e, f, g, h, i, j, k, l]"
    by (auto simp add: length_Suc_conv)
  then have "take 12 s = [a, b, c, d, e, f, g, h, i, j, k, l]"
    by (simp add: t_def)
  then have "s = a # b # c # d # e # f # g # h # i # j # k # l # drop 12 s"
    using append_take_drop_id [of 12 s] by simp
  then show ?thesis by blast
qed

lemma canonical_slices:
  assumes "12 \<le> length s" and "list_all is_upper_hex s"
  shows "is_canonical (join '':'' (map (\<lambda>i. slice s i (i + 2)) [0, 2, 4, 6, 8, 10]))"
proof -
  from length_twelve [OF assms(1)] obtain a b c d e f g h i j k l r
    where s: "s = a # b # c # d # e # f # g # h # i # j # k # l # r"
    by blast
  show ?thesis
    using assms(2) unfolding s
    by (simp add: is_canonical_def slice_def upt_17)
qed

text \<open>
  C1, as stated, fails: \<open>increment_mac\<close> never reduces the sum modulo \<open>2^48\<close>. Past
  \<open>2^48 - 1\<close> the number has thirteen hex digits and the slices keep the first twelve,
  so \<open>FF:FF:FF:FF:FF:FF\<close> plus 2 gives \<open>10:00:00:00:00:00\<close>, where the wrapped value is
  \<open>00:00:00:00:00:01\<close>.
\<close>

theorem increment_mac_wraparound_counterexample:
  "is_address top_address \<and> mac_string top_address = ''FF:FF:FF:FF:FF:FF''
   \<and> increment_mac ''FF:FF:FF:FF:FF:FF'' 2 = Inr ''10:00:00:00:00:00''
   \<and> mac_string (deriveAddress top_address 2) = ''00:00:00:00:00:01''"
  unfolding top_address_def by code_simp

text \<open>
  C1, amended. For every 6-byte address and every integer offset whose sum with the
  address's 48-bit big-endian value lies in \<open>0 .. 2^48 - 1\<close>, \<open>increment_mac\<close> returns the
  address the specification derives: that sum (which the reduction modulo \<open>2^48\<close> leaves
  as it is), rendered as six colon-separated upper-case hex byte pairs.
\<close>

theorem increment_mac_derives_without_overflow:
  "is_address bs \<Longrightarrow> 0 \<le> be_value bs + offset \<Longrightarrow> be_value bs + offset < 2 ^ 48
     \<Longrightarrow> increment_mac (mac_string bs) offset = Inr (mac_string (deriveAddress bs offset))"
  by (simp add: increment_mac_in_range deriveAddress_def)

theorem increment_mac_derives_without_overflow_witness:
  "is_address sample_address \<and> 0 \<le> be_value sample_address + 2
   \<and> be_value sample_address + 2 < 2 ^ 48
   \<and> mac_string sample_address = ''24:6F:28:AA:BB:CC''
   \<and> increment_mac (mac_string sample_address) 2 = Inr (mac_string (deriveAddress sample_address 2))
   \<and> mac_string (deriveAddress sample_address 2) = ''24:6F:28:AA:BB:CE''"
proof -
  have a: "is_address sample_address"
    unfolding sample_address_def by code_simp
  have b: "0 \<le> be_value sample_address + 2"
    unfolding sample_address_def by code_simp
  have c: "be_value sample_address + 2 < 2 ^ 48"
    unfolding sample_address_def by code_simp
  have d: "mac_string sample_address = ''24:6F:28:AA:BB:CC''"
    unfolding sample_address_def by code_simp
  have e: "mac_string (deriveAddress sample_address 2) = ''24:6F:28:AA:BB:CE''"
    unfolding sample_address_def by code_simp
  from increment_mac_derives_without_overflow [OF a b c] a b c d e
  show ?thesis by blast
qed

text \<open>
  C7, as stated, fails: adding \<open>-o mod 2^48\<close> to \<open>a + o\<close> gives \<open>a + 2^48\<close>, which is not
  reduced. From \<open>00:00:00:00:00:00\<close> with the offset 1 the second call returns
  \<open>10:00:00:00:00:00\<close>.
\<close>

theorem increment_mac_inverse_counterexample:
  "is_address zero_address \<and> mac_string zero_address = ''00:00:00:00:00:00''
   \<and> (case increment_mac ''00:00:00:00:00:00'' 1 of
         Inl e \<Rightarrow> Inl e
       | Inr mac \<Rightarrow> increment_mac mac ((- 1) mod 2 ^ 48)) = Inr ''10:00:00:00:00:00''"
  unfolding zero_address_def by code_simp

text \<open>
  C7, amended. For every 6-byte address \<open>a\<close> and offset \<open>o \<ge> 0\<close> with \<open>a + o < 2^48\<close>,
  deriving with \<open>o\<close> and then with \<open>-o\<close> (the plain negative offset) returns \<open>a\<close>.
\<close>

theorem increment_mac_inverse:
  assumes "is_address bs" and "0 \<le> offset" and "be_value bs + offset < 2 ^ 48"
  shows "(case increment_mac (mac_string bs) offset of
            Inl e \<Rightarrow> Inl e
          | Inr mac \<Rightarrow> increment_mac mac (- offset)) = Inr (mac_string bs)"
proof -
  let ?n = "be_value bs + offset"
  from assms(1) have r: "list_all (\<lambda>b. 0 \<le> b \<and> b < 256) bs" and l: "length bs = 6"
    by (simp_all add: is_address_def)
  have v: "0 \<le> be_value bs"
    using be_value_bounds [OF r] by simp
  then have n0: "0 \<le> ?n"
    using assms(2) by simp
  have one: "increment_mac (mac_string bs) offset = Inr (mac_string (be_bytes 6 ?n))"
    using assms(1) n0 assms(3) by (rule increment_mac_in_range)
  have "256 ^ 6 = (2::int) ^ 48" by simp
  then have val: "be_value (be_bytes 6 ?n) = ?n"
    using be_value_be_bytes [of ?n 6] n0 assms(3) by simp
  have "be_value bs < 2 ^ 48"
    using assms(2,3) by simp
  then have two: "increment_mac (mac_string (be_bytes 6 ?n)) (- offset)
                       = Inr (mac_string (be_bytes 6 (be_value bs)))"
    using increment_mac_in_range [OF is_address_be_bytes, of ?n "- offset"] v
    by (simp add: val)
  have "be_bytes 6 (be_value bs) = bs"
    using be_bytes_be_value [OF r] l by simp
  with one two show ?thesis
    by simp
qed

theorem increment_mac_inverse_witness:
  "is_address sample_address \<and> (0::int) \<le> 2 \<and> be_value sample_address + 2 < 2 ^ 48
   \<and> (case increment_mac (mac_string sample_address) 2 of
         Inl e \<Rightarrow> Inl e
       | Inr mac \<Rightarrow> increment_mac mac (- 2)) = Inr (mac_string sample_address)"
proof -
  have a: "is_address sample_address"
    unfolding sample_address_def by code_simp
  have b: "(0::int) \<le> 2"
    by simp
  have c: "be_value sample_address + 2 < 2 ^ 48"
    unfolding sample_address_def by code_simp
  from increment_mac_inverse [OF a b c] a b c
  show ?thesis by blast
qed

text \<open>
  C8, as stated, fails for a sum below zero: \<open>format\<close> then writes a minus sign, and
  \<open>00:00:00:00:00:00\<close> with the offset \<open>-1\<close> gives \<open>-0:00:00:00:00:01\<close>.
\<close>

theorem increment_mac_canonical_counterexample:
  "is_address zero_address \<and> mac_string zero_address = ''00:00:00:00:00:00''
   \<and> increment_mac ''00:00:00:00:00:00'' (- 1) = Inr ''-0:00:00:00:00:01''
   \<and> \<not> is_canonical ''-0:00:00:00:00:01''"
  unfolding zero_address_def by code_simp

text \<open>
  C8, amended. For every 6-byte address and every offset whose sum with the address's
  value is not negative, \<open>increment_mac\<close> returns six colon-separated groups of two
  upper-case hex digits, also when the sum is beyond \<open>2^48 - 1\<close>.
\<close>

theorem increment_mac_canonical:
  assumes "is_address bs" and "0 \<le> be_value bs + offset"
  shows "(case increment_mac (mac_string bs) offset of
            Inl e \<Rightarrow> False
          | Inr mac \<Rightarrow> is_canonical mac)"
proof -
  have "is_canonical (join '':'' (map (\<lambda>i. slice (format_012X (be_value bs + offset)) i (i + 2))
                                     [0, 2, 4, 6, 8, 10]))"
    using format_nonneg [OF assms(2)] by (rule canonical_slices)
  then show ?thesis
    by (simp only: increment_mac_address [OF assms(1)] sum.case)
qed

theorem increment_mac_canonical_witness:
  "is_address top_address \<and> 0 \<le> be_value top_address + 2
   \<and> increment_mac (mac_string top_address) 2 = Inr ''10:00:00:00:00:00''
   \<and> is_canonical ''10:00:00:00:00:00''"
proof -
  have a: "is_address top_address"
    unfolding top_address_def by code_simp
  have b: "0 \<le> be_value top_address + 2"
    unfolding top_address_def by code_simp
  have c: "increment_mac (mac_string top_address) 2 = Inr ''10:00:00:00:00:00''"
    unfolding top_address_def by code_simp
  from increment_mac_canonical [OF a b] a b c
  show ?thesis by simp
qed

subsection \<open>Identifiers across restarts\<close>

lemma record_device_result:
  assumes "record_device s port mac self = Inr (info, self', saved)"
    and "mac_database self = JArr ds" and "device_counter self = JInt k"
  shows "record_id info = JInt k" and "mac_database self' = JArr (ds @ [info])"
    and "device_counter self' = JInt (k + 1)" and "saved = save_database self' (saved_at s)"
  using assms
  by (auto simp add: record_device_def py_append_def add_one_def record_id_def dict_get_def Let_def
        split: sum.splits)

lemma read_loop_cases:
  "read_loop ps s port self file = Inr (None, self, file)
   \<or> (\<exists>e. read_loop ps s port self file = Inl e)
   \<or> (\<exists>mac info self' saved. record_device s port mac self = Inr (info, self', saved)
         \<and> read_loop ps s port self file = Inr (Some info, self', Some saved))"
proof (induction ps)
  case Nil
  show ?case by simp
next
  case (Cons p ps)
  show ?case
  proof (cases p)
    case Quiet
    with Cons show ?thesis by simp
  next
    case Broken
    then show ?thesis by simp
  next
    case (Received raw)
    show ?thesis
    proof (cases "strip raw \<noteq> [] \<and> (\<exists>mac. parse_mac_from_boot_message (strip raw) = Some mac \<and> mac \<noteq> [])")
      case False
      then have "read_loop (p # ps) s port self file = read_loop ps s port self file"
        using Received by (auto simp add: Let_def split: option.splits)
      with Cons show ?thesis by simp
    next
      case True
      then obtain mac where mac: "parse_mac_from_boot_message (strip raw) = Some mac" "mac \<noteq> []"
        and ne: "strip raw \<noteq> []"
        by blast
      show ?thesis
      proof (cases "record_device s port mac self")
        case (Inl e)
        then show ?thesis
          using Received mac ne by (simp add: Let_def)
      next
        case (Inr r)
        obtain info self' saved where r: "r = (info, self', saved)"
          by (cases r) auto
        have "read_loop (p # ps) s port self file = Inr (Some info, self', Some saved)"
          using Received mac ne Inr r by (simp add: Let_def)
        with Inr r show ?thesis by blast
      qed
    qed
  qed
qed

lemma collect_cases:
  "collect_mac_from_reset s port self file = Inr (None, self, file)
   \<or> (\<exists>e. collect_mac_from_reset s port self file = Inl e)
   \<or> (\<exists>mac info self' saved. record_device s port mac self = Inr (info, self', saved)
         \<and> collect_mac_from_reset s port self file = Inr (Some info, self', Some saved))"
  using read_loop_cases [of "polls s" s port self "file"]
  by (simp add: collect_mac_from_reset_def)

lemma numbered_snoc:
  "numbered ds \<Longrightarrow> record_id info = JInt (int (length ds) + 1) \<Longrightarrow> numbered (ds @ [info])"
  by (simp add: numbered_def upto_rec2 add.commute)

lemma consistent_launch:
  assumes "consistent ds w"
  shows "\<exists>m. ESP32Manager 115200 30 (disk w) = Inr m \<and> consistent ds (w\<lparr>process := Some m\<rparr>)"
proof (cases "disk w")
  case None
  with assms show ?thesis
    by (auto simp add: consistent_def ESP32Manager_def load_database_def)
next
  case (Some c)
  with assms obtain m now where m: "mac_database m = JArr ds"
      "device_counter m = JInt (int (length ds) + 1)" "c = save_database m now"
    by (auto simp add: consistent_def)
  with assms Some show ?thesis
    by (simp add: consistent_def ESP32Manager_def load_database_def save_database_def
          dict_get_def py_len_def)
qed

lemma consistent_stop: "consistent ds w \<Longrightarrow> consistent ds (w\<lparr>process := None\<rparr>)"
  by (simp add: consistent_def)

lemma consistent_capture:
  assumes "consistent ds w" and "process w = Some m"
    and "record_device s port mac m = Inr (info, m', saved)"
  shows "record_id info = JInt (int (length ds) + 1)"
    and "consistent (ds @ [info]) \<lparr>process = Some m', disk = Some saved\<rparr>"
proof -
  from assms(1,2) have m: "mac_database m = JArr ds" "device_counter m = JInt (int (length ds) + 1)"
    and n: "numbered ds"
    by (simp_all add: consistent_def)
  note r = record_device_result [OF assms(3) m]
  show id: "record_id info = JInt (int (length ds) + 1)"
    by (rule r(1))
  have "numbered (ds @ [info])"
    using n id by (rule numbered_snoc)
  moreover have "device_counter m' = JInt (int (length (ds @ [info])) + 1)"
    using r(3) by (simp add: add.commute)
  ultimately show "consistent (ds @ [info]) \<lparr>process = Some m', disk = Some saved\<rparr>"
    using r(2,4) by (auto simp add: consistent_def)
qed

lemma run_numbers:
  "consistent ds w \<Longrightarrow>
     map record_id (fst (run steps w))
       = map JInt [int (length ds) + 1..int (length ds) + int (length (fst (run steps w)))]"
proof (induction steps arbitrary: ds w)
  case Nil
  show ?case by simp
next
  case (Cons step steps)
  show ?case
  proof (cases step)
    case Launch
    from consistent_launch [OF Cons.prems] obtain m
      where m: "ESP32Manager 115200 30 (disk w) = Inr m" "consistent ds (w\<lparr>process := Some m\<rparr>)"
      by blast
    from Cons.IH [OF m(2)] show ?thesis
      using Launch m(1) by simp
  next
    case (Capture port s)
    show ?thesis
    proof (cases "process w")
      case None
      with Cons.IH [OF Cons.prems] Capture show ?thesis by simp
    next
      case (Some m)
      have w: "\<lparr>process = Some m, disk = disk w\<rparr> = w"
        using Some by simp
      from collect_cases [of s port m "disk w"] show ?thesis
      proof (elim disjE exE conjE)
        assume "collect_mac_from_reset s port m (disk w) = Inr (None, m, disk w)"
        with Cons.IH [OF Cons.prems] Capture Some show ?thesis by (simp add: w)
      next
        fix e assume "collect_mac_from_reset s port m (disk w) = Inl e"
        with Cons.IH [OF consistent_stop [OF Cons.prems]] Capture Some show ?thesis by simp
      next
        fix mac info m' saved
        assume r: "record_device s port mac m = Inr (info, m', saved)"
          and c: "collect_mac_from_reset s port m (disk w) = Inr (Some info, m', Some saved)"
        let ?w = "\<lparr>process = Some m', disk = Some saved\<rparr>"
        note k = consistent_capture [OF Cons.prems Some r]
        have run: "fst (run (step # steps) w) = info # fst (run steps ?w)"
          using Capture Some c by (simp split: prod.splits)
        let ?L = "int (length ds)" and ?k = "int (length (fst (run steps ?w)))"
        have e: "int (length (ds @ [info])) = ?L + 1"
          by simp
        have ih: "map record_id (fst (run steps ?w)) = map JInt [?L + 1 + 1..?L + 1 + ?k]"
          using Cons.IH [OF k(2)] unfolding e .
        have "[?L + 1..?L + 1 + ?k] = (?L + 1) # [?L + 1 + 1..?L + 1 + ?k]"
          by (rule upto_rec1) simp
        then have "map record_id (info # fst (run steps ?w)) = map JInt [?L + 1..?L + 1 + ?k]"
          using ih k(1) by simp
        moreover have "?L + int (length (info # fst (run steps ?w))) = ?L + 1 + ?k"
          by simp
        ultimately show ?thesis
          unfolding run by (simp only:)
      qed
    qed
  qed
qed

text \<open>
  C3. Start without a database file and let the program be launched, capture (with
  success, a timeout, an open failure or an uncaught exception) and be launched again in
  any order. The identifiers of the records the captures return are 1, 2, 3, ... in the
  order of creation: each is the one before plus 1, since the constructor reads
  \<open>next_id\<close> back from the file that the last capture saved.
\<close>

theorem identifiers_count_from_one:
  "map record_id (fst (run steps \<lparr>process = None, disk = None\<rparr>))
     = map JInt [1..int (length (fst (run steps \<lparr>process = None, disk = None\<rparr>)))]"
proof -
  have "consistent [] \<lparr>process = None, disk = None\<rparr>"
    by (simp add: consistent_def numbered_def)
  from run_numbers [OF this] show ?thesis by simp
qed

theorem identifiers_count_from_one_witness:
  "map record_id (fst (run [Launch, Capture ''/dev/ttyUSB0'' boot_session, Launch,
                            Capture ''/dev/ttyUSB0'' silent_session,
                            Capture ''/dev/ttyUSB1'' boot_session]
                           \<lparr>process = None, disk = None\<rparr>))
     = [JInt 1, JInt 2]"
proof -
  have "length (fst (run [Launch, Capture ''/dev/ttyUSB0'' boot_session, Launch,
                          Capture ''/dev/ttyUSB0'' silent_session,
                          Capture ''/dev/ttyUSB1'' boot_session]
                         \<lparr>process = None, disk = None\<rparr>)) = 2"
    unfolding boot_session_def silent_session_def by code_simp
  moreover have "[1..2] = [1, 2::int]"
    by (simp add: upto_rec1)
  ultimately show ?thesis
    using identifiers_count_from_one
            [of "[Launch, Capture ''/dev/ttyUSB0'' boot_session, Launch,
                  Capture ''/dev/ttyUSB0'' silent_session,
                  Capture ''/dev/ttyUSB1'' boot_session]"]
    by simp
qed

end
